theory Spec2Isabelle
  imports Complex_Main
begin

section \<open>Data model of \<open>kart/drive_logic/logic.py\<close>\<close>

text \<open>
  Positions are points of the vehicle's local frame: \<open>(x, y)\<close>, with \<open>y\<close> the forward
  coordinate (\<open>end.y\<close> in \<open>tic\<close>). Python floats are idealised as reals; the one
  non-real value the arithmetic of this module can produce, numpy's \<open>nan\<close> (the square root
  of a negative number), is a value of its own in \<open>pyfloat\<close>.
\<close>

type_synonym position = "real \<times> real"

datatype pyfloat = Fin real | NaN

datatype error = AssertionError | ZeroDivisionError

text \<open>
  Modelled from the spec: the \<open>Arc\<close> class of \<open>turn_table\<close> (imported, not part of
  \<open>logic.py\<close>): an arc of the catalog stands for a turn radius and carries its ordered
  \<open>positions\<close>, nearest first.
\<close>

record Arc =
  radius :: real
  positions :: "position list"

text \<open>
  \<open>DriveData.col_avoid_pointmap\<close> is either a scipy \<open>KDTree\<close> over the obstacle points
  or some other object, which \<open>get_end_of_arc\<close> rejects with its \<open>assert isinstance\<close>.
\<close>

datatype pointmap = KDTree "position list" | NotKDTree

record DriveData =
  col_avoid_pointmap :: pointmap
  run_time :: real

text \<open>
  The constants imported from \<open>const\<close> and \<open>phys_const\<close> are parameters of the model.
\<close>

record config =
  SAFE_DISTANCE :: real
  DECELERATION_RATE :: real

text \<open>The mutable fields of \<open>SimpleColAvoidLogic\<close>.\<close>

record logic_state =
  last_radius_index :: int
  current_turn_radius :: real
  current_speed :: pyfloat

section \<open>The obstacle index\<close>

definition distance :: "position \<Rightarrow> position \<Rightarrow> real" where
  "distance p q = sqrt ((fst p - fst q)\<^sup>2 + (snd p - snd q)\<^sup>2)"

text \<open>
  \<open>KDTree.query_ball_point(x, r)\<close>: the indices of the points of the tree whose distance
  to \<open>x\<close> is at most \<open>r\<close>.
\<close>

definition query_ball_point :: "position list \<Rightarrow> position \<Rightarrow> real \<Rightarrow> nat list" where
  "query_ball_point cloud x r = [i \<leftarrow> [0 ..< length cloud]. distance (cloud ! i) x \<le> r]"

section \<open>SimpleColAvoidLogic\<close>

definition init :: "Arc list \<Rightarrow> logic_state" where
  "init turn_arcs =
     \<lparr>last_radius_index = int (length turn_arcs) div 2,
      current_turn_radius = 0,
      current_speed = Fin 0\<rparr>"

text \<open>
  The loop of \<open>get_end_of_arc\<close> over \<open>arc.positions\<close>: a clear position becomes the
  last safe point, the first position with an impinging point ends the loop.
\<close>

fun walk_positions ::
  "position list \<Rightarrow> real \<Rightarrow> position option \<Rightarrow> position list \<Rightarrow> position option" where
  "walk_positions cloud sd last_safe_point [] = last_safe_point"
| "walk_positions cloud sd last_safe_point (pos # rest) =
     (if length (query_ball_point cloud pos sd) = 0
      then walk_positions cloud sd (Some pos) rest
      else last_safe_point)"

definition get_end_of_arc :: "config \<Rightarrow> DriveData \<Rightarrow> Arc \<Rightarrow> error + position option" where
  "get_end_of_arc c data arc =
     (case col_avoid_pointmap data of
        NotKDTree \<Rightarrow> Inl AssertionError
      | KDTree col_avoid_cloud \<Rightarrow>
          Inr (walk_positions col_avoid_cloud (SAFE_DISTANCE c) None (positions arc)))"

text \<open>\<open>numpy.sqrt\<close> on a float: \<open>nan\<close> below zero.\<close>

definition np_sqrt :: "real \<Rightarrow> pyfloat" where
  "np_sqrt x = (if x < 0 then NaN else Fin (sqrt x))"

fun fl_mult :: "pyfloat \<Rightarrow> real \<Rightarrow> pyfloat" where
  "fl_mult (Fin x) y = Fin (x * y)"
| "fl_mult NaN y = NaN"

definition find_speed_from_distance :: "config \<Rightarrow> real \<Rightarrow> error + pyfloat" where
  "find_speed_from_distance c distance' =
     (if DECELERATION_RATE c = 0 then Inl ZeroDivisionError
      else
        let deceleration_time = np_sqrt (distance' * 2 / DECELERATION_RATE c);
            speed = fl_mult deceleration_time (DECELERATION_RATE c)
        in Inr speed)"

text \<open>
  The \<open>for arc in turn_arcs\<close> loop of \<open>tic\<close>, on the pair
  \<open>(best_arc, best_distance)\<close>.
\<close>

fun scan_arcs ::
  "config \<Rightarrow> DriveData \<Rightarrow> Arc option \<times> real \<Rightarrow> Arc list \<Rightarrow> error + (Arc option \<times> real)" where
  "scan_arcs c data (best_arc, best_distance) [] = Inr (best_arc, best_distance)"
| "scan_arcs c data (best_arc, best_distance) (arc # rest) =
     (case get_end_of_arc c data arc of
        Inl e \<Rightarrow> Inl e
      | Inr end' \<Rightarrow>
          (case end' of
             None \<Rightarrow> scan_arcs c data (best_arc, best_distance) rest
           | Some p \<Rightarrow>
               if snd p > best_distance
               then scan_arcs c data (Some arc, snd p) rest
               else scan_arcs c data (best_arc, best_distance) rest))"

definition tic :: "config \<Rightarrow> DriveData \<Rightarrow> Arc list \<Rightarrow> logic_state \<Rightarrow> error + logic_state" where
  "tic c data turn_arcs s =
     (case scan_arcs c data (None, 0) turn_arcs of
        Inl e \<Rightarrow> Inl e
      | Inr (best_arc, best_distance) \<Rightarrow>
          (case best_arc of
             None \<Rightarrow> Inr (s\<lparr>current_turn_radius := 0, current_speed := Fin 0\<rparr>)
           | Some a \<Rightarrow>
               (case find_speed_from_distance c (best_distance - SAFE_DISTANCE c) of
                  Inl e \<Rightarrow> Inl e
                | Inr v \<Rightarrow> Inr (s\<lparr>current_speed := v\<rparr>))))"

definition target_turn_radius :: "logic_state \<Rightarrow> real" where
  "target_turn_radius s = current_turn_radius s"

definition target_speed :: "logic_state \<Rightarrow> pyfloat" where
  "target_speed s = current_speed s"

section \<open>expanding_indices\<close>

text \<open>
  The generator's \<open>while True\<close> loop on its counter \<open>i\<close>; the list is the sequence of
  the values it yields. The counter's magnitude grows by one in every round, and the loop
  breaks once it is out of the bounds and larger than both of them.
\<close>

function expanding_from :: "int \<Rightarrow> int \<Rightarrow> int \<Rightarrow> int \<Rightarrow> int list" where
  "expanding_from start_index lower_bound upper_bound i =
     (if lower_bound \<le> i \<and> i < upper_bound
      then (i + start_index) #
           expanding_from start_index lower_bound upper_bound
             (if i \<ge> 0 then i * - 1 - 1 else i * - 1 + 1)
      else if \<bar>i\<bar> > max \<bar>lower_bound\<bar> \<bar>upper_bound\<bar> then []
      else expanding_from start_index lower_bound upper_bound
             (if i \<ge> 0 then i * - 1 - 1 else i * - 1 + 1))"
  by pat_completeness auto
termination
  by (relation "measure (\<lambda>(s, lo, hi, i). nat (max \<bar>lo\<bar> \<bar>hi\<bar> + 1 - \<bar>i\<bar>))") auto

definition expanding_indices :: "int \<Rightarrow> int \<Rightarrow> int \<Rightarrow> int list" where
  "expanding_indices start_index lower_bound upper_bound =
     expanding_from start_index lower_bound upper_bound 0"

section \<open>The scan's tie-break\<close>

text \<open>
  \<open>first_at c data turn_arcs i d\<close>: the arc at index \<open>i\<close> has a safe end point at forward
  distance \<open>d\<close>, and every arc before it in the catalog that has a safe end point ends
  strictly nearer.
\<close>

definition first_at :: "config \<Rightarrow> DriveData \<Rightarrow> Arc list \<Rightarrow> nat \<Rightarrow> real \<Rightarrow> bool" where
  "first_at c data turn_arcs i d \<longleftrightarrow>
     i < length turn_arcs \<and>
     (\<exists>q. get_end_of_arc c data (turn_arcs ! i) = Inr (Some q) \<and> snd q = d) \<and>
     (\<forall>j<i. \<forall>p. get_end_of_arc c data (turn_arcs ! j) = Inr (Some p) \<longrightarrow> snd p < d)"

section \<open>Helper lemmas\<close>

lemma distance_le_iff:
  "distance p q \<le> r \<longleftrightarrow> 0 \<le> r \<and> (fst p - fst q)\<^sup>2 + (snd p - snd q)\<^sup>2 \<le> r\<^sup>2"
proof (cases "0 \<le> r")
  case True
  have "sqrt ((fst p - fst q)\<^sup>2 + (snd p - snd q)\<^sup>2) \<le> sqrt (r\<^sup>2) \<longleftrightarrow> (fst p - fst q)\<^sup>2 + (snd p - snd q)\<^sup>2 \<le> r\<^sup>2"
    by (rule real_sqrt_le_iff)
  with True show ?thesis
    unfolding distance_def by simp
next
  case False
  have "0 \<le> distance p q" unfolding distance_def by simp
  with False show ?thesis by linarith
qed

lemma query_ball_point_empty_iff:
  "query_ball_point cloud x r = [] \<longleftrightarrow> (\<forall>q\<in>set cloud. \<not> distance q x \<le> r)"
proof -
  have "query_ball_point cloud x r = [] \<longleftrightarrow> (\<forall>i<length cloud. \<not> distance (cloud ! i) x \<le> r)"
    unfolding query_ball_point_def by (auto simp: filter_empty_conv)
  also have "\<dots> \<longleftrightarrow> (\<forall>q\<in>set cloud. \<not> distance q x \<le> r)"
    by (simp add: all_set_conv_all_nth)
  finally show ?thesis .
qed

lemma walk_positions_all_clear:
  "\<forall>pos\<in>set ps. query_ball_point cloud pos sd = [] \<Longrightarrow>
   walk_positions cloud sd l ps = (if ps = [] then l else Some (last ps))"
  by (induction ps arbitrary: l) auto

lemma get_end_of_arc_Inr_KDTree:
  "get_end_of_arc c data a = Inr e \<Longrightarrow> \<exists>cloud. col_avoid_pointmap data = KDTree cloud"
  unfolding get_end_of_arc_def by (cases "col_avoid_pointmap data") auto

lemma get_end_of_arc_KDTree_Inr:
  "col_avoid_pointmap data = KDTree cloud \<Longrightarrow> \<exists>e. get_end_of_arc c data a = Inr e"
  unfolding get_end_of_arc_def by simp

lemma scan_arcs_no_better:
  "\<forall>a\<in>set turn_arcs. \<exists>e. get_end_of_arc c data a = Inr e \<and> (\<forall>p. e = Some p \<longrightarrow> snd p \<le> bd) \<Longrightarrow>
   scan_arcs c data (ba, bd) turn_arcs = Inr (ba, bd)"
proof (induction turn_arcs)
  case Nil
  then show ?case by simp
next
  case (Cons arc rest)
  then obtain e where e: "get_end_of_arc c data arc = Inr e" "\<forall>p. e = Some p \<longrightarrow> snd p \<le> bd"
    by auto
  from Cons have "scan_arcs c data (ba, bd) rest = Inr (ba, bd)" by simp
  with e show ?case by (cases e) auto
qed

text \<open>One round of the scan, as the three ways the loop body can go.\<close>

lemma scan_arcs_Cons_cases:
  assumes "scan_arcs c data (ba, bd) (arc # rest) = Inr r"
  obtains (skip_none) "get_end_of_arc c data arc = Inr None"
      "scan_arcs c data (ba, bd) rest = Inr r"
    | (skip_low) q where "get_end_of_arc c data arc = Inr (Some q)" "snd q \<le> bd"
      "scan_arcs c data (ba, bd) rest = Inr r"
    | (take) q where "get_end_of_arc c data arc = Inr (Some q)" "bd < snd q"
      "scan_arcs c data (Some arc, snd q) rest = Inr r"
proof (cases "get_end_of_arc c data arc")
  case (Inl e)
  with assms show ?thesis by simp
next
  case (Inr e)
  show ?thesis
  proof (cases e)
    case None
    with Inr assms show ?thesis by (intro skip_none) simp_all
  next
    case (Some q)
    show ?thesis
    proof (cases "bd < snd q")
      case True
      with Inr Some assms show ?thesis by (intro take [of q]) simp_all
    next
      case False
      with Inr Some assms show ?thesis by (intro skip_low [of q]) simp_all
    qed
  qed
qed

lemma scan_arcs_upper:
  "scan_arcs c data (ba, bd) turn_arcs = Inr (ba', bd') \<Longrightarrow>
   bd \<le> bd' \<and> (\<forall>b\<in>set turn_arcs. \<forall>p. get_end_of_arc c data b = Inr (Some p) \<longrightarrow> snd p \<le> bd')"
proof (induction turn_arcs arbitrary: ba bd)
  case Nil
  then show ?case by simp
next
  case (Cons arc rest)
  from Cons.prems show ?case
  proof (cases rule: scan_arcs_Cons_cases)
    case skip_none
    from Cons.IH [OF skip_none(2)] skip_none(1) show ?thesis by simp
  next
    case (skip_low q)
    from Cons.IH [OF skip_low(3)] skip_low(1,2) show ?thesis by auto
  next
    case (take q)
    from Cons.IH [OF take(3)] take(1,2) show ?thesis by auto
  qed
qed


lemma first_at_0:
  "get_end_of_arc c data arc = Inr (Some q) \<Longrightarrow> first_at c data (arc # rest) 0 (snd q)"
  unfolding first_at_def by simp

lemma first_at_Suc:
  assumes "first_at c data rest i d"
    and "\<forall>p. get_end_of_arc c data arc = Inr (Some p) \<longrightarrow> snd p < d"
  shows "first_at c data (arc # rest) (Suc i) d"
proof -
  have "\<forall>j<Suc i. \<forall>p. get_end_of_arc c data ((arc # rest) ! j) = Inr (Some p) \<longrightarrow> snd p < d"
  proof (intro allI impI)
    fix j p
    assume j: "j < Suc i" and p: "get_end_of_arc c data ((arc # rest) ! j) = Inr (Some p)"
    show "snd p < d"
    proof (cases j)
      case 0
      with p assms(2) show ?thesis by simp
    next
      case (Suc k)
      with j p assms(1) show ?thesis unfolding first_at_def by (cases p) auto
    qed
  qed
  with assms(1) show ?thesis unfolding first_at_def by simp
qed

lemma scan_arcs_choice:
  "scan_arcs c data (ba, bd) turn_arcs = Inr (ba', bd') \<Longrightarrow>
   (ba' = ba \<and> bd' = bd) \<or>
   (bd < bd' \<and> (\<exists>i. ba' = Some (turn_arcs ! i) \<and> first_at c data turn_arcs i bd'))"
proof (induction turn_arcs arbitrary: ba bd)
  case Nil
  then show ?case by simp
next
  case (Cons arc rest)
  from Cons.prems show ?case
  proof (cases rule: scan_arcs_Cons_cases)
    case skip_none
    from Cons.IH [OF skip_none(2)] show ?thesis
    proof
      assume "ba' = ba \<and> bd' = bd"
      then show ?thesis by simp
    next
      assume "bd < bd' \<and> (\<exists>i. ba' = Some (rest ! i) \<and> first_at c data rest i bd')"
      then obtain i where i: "bd < bd'" "ba' = Some (rest ! i)" "first_at c data rest i bd'"
        by blast
      from i(3) skip_none(1) have "first_at c data (arc # rest) (Suc i) bd'"
        by (intro first_at_Suc) simp_all
      with i(1,2) have "bd < bd' \<and> ba' = Some ((arc # rest) ! Suc i) \<and> first_at c data (arc # rest) (Suc i) bd'"
        by simp
      then show ?thesis by blast
    qed
  next
    case (skip_low q)
    from Cons.IH [OF skip_low(3)] show ?thesis
    proof
      assume "ba' = ba \<and> bd' = bd"
      then show ?thesis by simp
    next
      assume "bd < bd' \<and> (\<exists>i. ba' = Some (rest ! i) \<and> first_at c data rest i bd')"
      then obtain i where i: "bd < bd'" "ba' = Some (rest ! i)" "first_at c data rest i bd'"
        by blast
      from i(1) skip_low(1,2) have "\<forall>p. get_end_of_arc c data arc = Inr (Some p) \<longrightarrow> snd p < bd'"
        by auto
      with i(3) have "first_at c data (arc # rest) (Suc i) bd'"
        by (rule first_at_Suc)
      with i(1,2) have "bd < bd' \<and> ba' = Some ((arc # rest) ! Suc i) \<and> first_at c data (arc # rest) (Suc i) bd'"
        by simp
      then show ?thesis by blast
    qed
  next
    case (take q)
    from Cons.IH [OF take(3)] show ?thesis
    proof
      assume same: "ba' = Some arc \<and> bd' = snd q"
      from take(1) have "first_at c data (arc # rest) 0 (snd q)" by (rule first_at_0)
      with same take(2) have "bd < bd' \<and> ba' = Some ((arc # rest) ! 0) \<and> first_at c data (arc # rest) 0 bd'"
        by simp
      then show ?thesis by blast
    next
      assume "snd q < bd' \<and> (\<exists>i. ba' = Some (rest ! i) \<and> first_at c data rest i bd')"
      then obtain i where i: "snd q < bd'" "ba' = Some (rest ! i)" "first_at c data rest i bd'"
        by blast
      from i(1) take(1) have "\<forall>p. get_end_of_arc c data arc = Inr (Some p) \<longrightarrow> snd p < bd'"
        by auto
      with i(3) have "first_at c data (arc # rest) (Suc i) bd'"
        by (rule first_at_Suc)
      with i(1,2) take(2) have "bd < bd' \<and> ba' = Some ((arc # rest) ! Suc i) \<and> first_at c data (arc # rest) (Suc i) bd'"
        by simp
      then show ?thesis by blast
    qed
  qed
qed


text \<open>The speed planner on a free distance that is not negative.\<close>

lemma find_speed_from_distance_nonneg:
  assumes "0 < DECELERATION_RATE c" and "0 \<le> d"
  shows "\<exists>v. find_speed_from_distance c d = Inr (Fin v) \<and> 0 \<le> v \<and>
    v\<^sup>2 = 2 * DECELERATION_RATE c * d"
proof -
  let ?a = "DECELERATION_RATE c"
  let ?v = "sqrt (d * 2 / ?a) * ?a"
  from assms have nn: "0 \<le> d * 2 / ?a" by simp
  then have "find_speed_from_distance c d = Inr (Fin ?v)"
    using assms(1) by (simp add: find_speed_from_distance_def np_sqrt_def Let_def)
  moreover from assms nn have "0 \<le> ?v" by simp
  moreover have "?v\<^sup>2 = 2 * ?a * d"
  proof -
    have "?v\<^sup>2 = (sqrt (d * 2 / ?a))\<^sup>2 * ?a\<^sup>2" by (simp add: power_mult_distrib)
    also have "\<dots> = (d * 2 / ?a) * ?a\<^sup>2" using nn by simp
    also have "\<dots> = 2 * ?a * d" using assms(1) by (simp add: power2_eq_square)
    finally show ?thesis .
  qed
  ultimately show ?thesis by blast
qed

lemma find_speed_from_distance_mono:
  assumes "0 < DECELERATION_RATE c" and "0 \<le> d1" and "d1 \<le> d2"
  shows "\<exists>v1 v2. find_speed_from_distance c d1 = Inr (Fin v1) \<and>
    find_speed_from_distance c d2 = Inr (Fin v2) \<and> v1 \<le> v2"
proof -
  let ?a = "DECELERATION_RATE c"
  from assms have nn: "0 \<le> d1 * 2 / ?a" "0 \<le> d2 * 2 / ?a" by simp_all
  from assms have "d1 * 2 / ?a \<le> d2 * 2 / ?a" by (simp add: divide_right_mono)
  then have "sqrt (d1 * 2 / ?a) * ?a \<le> sqrt (d2 * 2 / ?a) * ?a"
    using assms(1) by simp
  moreover have "find_speed_from_distance c d1 = Inr (Fin (sqrt (d1 * 2 / ?a) * ?a))"
    "find_speed_from_distance c d2 = Inr (Fin (sqrt (d2 * 2 / ?a) * ?a))"
    using assms(1) nn by (simp_all add: find_speed_from_distance_def np_sqrt_def Let_def)
  ultimately show ?thesis by blast
qed

section \<open>Lemmas on \<open>expanding_from\<close>\<close>

declare expanding_from.simps [simp del]

lemma expanding_from_in:
  assumes "lo \<le> i \<and> i < hi"
  shows "expanding_from s lo hi i =
    (i + s) # expanding_from s lo hi (if i \<ge> 0 then i * - 1 - 1 else i * - 1 + 1)"
  by (subst expanding_from.simps, subst if_P [OF assms], rule refl)

lemma expanding_from_stop:
  assumes "\<not> (lo \<le> i \<and> i < hi)" and "\<bar>i\<bar> > max \<bar>lo\<bar> \<bar>hi\<bar>"
  shows "expanding_from s lo hi i = []"
  by (subst expanding_from.simps, subst if_not_P [OF assms(1)], subst if_P [OF assms(2)], rule refl)

lemma expanding_from_skip:
  assumes "\<not> (lo \<le> i \<and> i < hi)" and "\<not> \<bar>i\<bar> > max \<bar>lo\<bar> \<bar>hi\<bar>"
  shows "expanding_from s lo hi i =
    expanding_from s lo hi (if i \<ge> 0 then i * - 1 - 1 else i * - 1 + 1)"
  by (subst expanding_from.simps, subst if_not_P [OF assms(1)], subst if_not_P [OF assms(2)],
      rule refl)

lemma expanding_from_members:
  "k \<in> set (expanding_from s lo hi i) \<Longrightarrow> lo \<le> k - s \<and> k - s < hi \<and> \<bar>i\<bar> \<le> \<bar>k - s\<bar>"
proof (induction s lo hi i rule: expanding_from.induct)
  case (1 s lo hi i)
  let ?n = "if i \<ge> 0 then i * - 1 - 1 else i * - 1 + 1"
  have n: "\<bar>?n\<bar> = \<bar>i\<bar> + 1" by simp
  show ?case
  proof (cases "lo \<le> i \<and> i < hi")
    case True
    from "1.prems" have "k = i + s \<or> k \<in> set (expanding_from s lo hi ?n)"
      unfolding expanding_from_in [OF True] by simp
    then show ?thesis
    proof
      assume "k = i + s"
      with True show ?thesis by simp
    next
      assume "k \<in> set (expanding_from s lo hi ?n)"
      from "1.IH"(1) [OF True this] n show ?thesis by linarith
    qed
  next
    case False
    show ?thesis
    proof (cases "\<bar>i\<bar> > max \<bar>lo\<bar> \<bar>hi\<bar>")
      case True
      from "1.prems" show ?thesis
        unfolding expanding_from_stop [OF False True] by simp
    next
      case nb: False
      from "1.prems" have "k \<in> set (expanding_from s lo hi ?n)"
        unfolding expanding_from_skip [OF False nb] .
      from "1.IH"(2) [OF False nb this] n show ?thesis by linarith
    qed
  qed
qed

lemma expanding_from_distinct: "distinct (expanding_from s lo hi i)"
proof (induction s lo hi i rule: expanding_from.induct)
  case (1 s lo hi i)
  let ?n = "if i \<ge> 0 then i * - 1 - 1 else i * - 1 + 1"
  have n: "\<bar>?n\<bar> = \<bar>i\<bar> + 1" by simp
  show ?case
  proof (cases "lo \<le> i \<and> i < hi")
    case True
    have "i + s \<notin> set (expanding_from s lo hi ?n)"
    proof
      assume "i + s \<in> set (expanding_from s lo hi ?n)"
      from expanding_from_members [OF this] n show False by simp
    qed
    moreover from "1.IH"(1) [OF True] have "distinct (expanding_from s lo hi ?n)" .
    ultimately show ?thesis
      unfolding expanding_from_in [OF True] by simp
  next
    case False
    show ?thesis
    proof (cases "\<bar>i\<bar> > max \<bar>lo\<bar> \<bar>hi\<bar>")
      case True
      show ?thesis unfolding expanding_from_stop [OF False True] by simp
    next
      case nb: False
      from "1.IH"(2) [OF False nb] show ?thesis
        unfolding expanding_from_skip [OF False nb] .
    qed
  qed
qed

lemma expanding_from_sorted: "sorted (map (\<lambda>k. \<bar>k - s\<bar>) (expanding_from s lo hi i))"
proof (induction s lo hi i rule: expanding_from.induct)
  case (1 s lo hi i)
  let ?n = "if i \<ge> 0 then i * - 1 - 1 else i * - 1 + 1"
  have n: "\<bar>?n\<bar> = \<bar>i\<bar> + 1" by simp
  show ?case
  proof (cases "lo \<le> i \<and> i < hi")
    case True
    have "\<forall>k\<in>set (expanding_from s lo hi ?n). \<bar>i\<bar> \<le> \<bar>k - s\<bar>"
    proof
      fix k assume "k \<in> set (expanding_from s lo hi ?n)"
      from expanding_from_members [OF this] n show "\<bar>i\<bar> \<le> \<bar>k - s\<bar>" by linarith
    qed
    moreover from "1.IH"(1) [OF True]
    have "sorted (map (\<lambda>k. \<bar>k - s\<bar>) (expanding_from s lo hi ?n))" .
    ultimately show ?thesis
      unfolding expanding_from_in [OF True] by simp
  next
    case False
    show ?thesis
    proof (cases "\<bar>i\<bar> > max \<bar>lo\<bar> \<bar>hi\<bar>")
      case True
      show ?thesis unfolding expanding_from_stop [OF False True] by simp
    next
      case nb: False
      from "1.IH"(2) [OF False nb] show ?thesis
        unfolding expanding_from_skip [OF False nb] .
    qed
  qed
qed

lemma expanding_indices_hd:
  "lo \<le> 0 \<Longrightarrow> 0 < hi \<Longrightarrow> hd (expanding_indices s lo hi) = s"
  unfolding expanding_indices_def by (subst expanding_from.simps) simp

section \<open>The arc safety evaluator\<close>

text \<open>
  C8: a non-empty arc whose positions are all farther than the safety margin from every point
  of the obstacle cloud has its last position as safe point.
\<close>

theorem get_end_of_arc_all_clear:
  assumes "col_avoid_pointmap data = KDTree cloud"
    and "positions arc \<noteq> []"
    and "\<forall>pos\<in>set (positions arc). \<forall>q\<in>set cloud. SAFE_DISTANCE c < distance q pos"
  shows "get_end_of_arc c data arc = Inr (Some (last (positions arc)))"
proof -
  from assms(3) have "\<forall>pos\<in>set (positions arc). query_ball_point cloud pos (SAFE_DISTANCE c) = []"
    by (simp add: query_ball_point_empty_iff not_le)
  then have "walk_positions cloud (SAFE_DISTANCE c) None (positions arc) = Some (last (positions arc))"
    using assms(2) by (simp add: walk_positions_all_clear)
  with assms(1) show ?thesis by (simp add: get_end_of_arc_def)
qed

theorem get_end_of_arc_all_clear_witness:
  "col_avoid_pointmap \<lparr>col_avoid_pointmap = KDTree [(10, 10)], run_time = 0\<rparr> = KDTree [(10, 10)] \<and>
   positions \<lparr>radius = 0, positions = [(0, 1), (0, 2)]\<rparr> \<noteq> [] \<and>
   SAFE_DISTANCE \<lparr>SAFE_DISTANCE = 1, DECELERATION_RATE = 2\<rparr> < distance (10, 10) (0, 1) \<and>
   SAFE_DISTANCE \<lparr>SAFE_DISTANCE = 1, DECELERATION_RATE = 2\<rparr> < distance (10, 10) (0, 2) \<and>
   get_end_of_arc \<lparr>SAFE_DISTANCE = 1, DECELERATION_RATE = 2\<rparr>
     \<lparr>col_avoid_pointmap = KDTree [(10, 10)], run_time = 0\<rparr>
     \<lparr>radius = 0, positions = [(0, 1), (0, 2)]\<rparr> = Inr (Some (0, 2))"
proof -
  have d: "(1 :: real) < distance (10, 10) (0, 1)" "(1 :: real) < distance (10, 10) (0, 2)"
    by (simp_all add: distance_le_iff flip: not_le)
  then have "\<forall>pos\<in>set (positions \<lparr>radius = 0, positions = [(0, 1), (0, 2)]\<rparr>).
      \<forall>q\<in>set [(10, 10)]. SAFE_DISTANCE \<lparr>SAFE_DISTANCE = 1, DECELERATION_RATE = 2\<rparr> < distance q pos"
    by simp
  from get_end_of_arc_all_clear [of "\<lparr>col_avoid_pointmap = KDTree [(10, 10)], run_time = 0\<rparr>"
      "[(10, 10)]" "\<lparr>radius = 0, positions = [(0, 1), (0, 2)]\<rparr>", OF _ _ this] d
  show ?thesis by simp
qed

text \<open>
  C9: an arc whose first position has an obstacle point within the safety margin has no safe
  point, whatever its later positions are.
\<close>

theorem get_end_of_arc_first_unsafe:
  assumes "col_avoid_pointmap data = KDTree cloud"
    and "positions arc = pos0 # rest"
    and "\<exists>q\<in>set cloud. distance q pos0 \<le> SAFE_DISTANCE c"
  shows "get_end_of_arc c data arc = Inr None"
proof -
  from assms(3) have "query_ball_point cloud pos0 (SAFE_DISTANCE c) \<noteq> []"
    by (simp add: query_ball_point_empty_iff)
  with assms(1,2) show ?thesis by (simp add: get_end_of_arc_def)
qed

theorem get_end_of_arc_first_unsafe_witness:
  "col_avoid_pointmap \<lparr>col_avoid_pointmap = KDTree [(8, 8), (1, 1)], run_time = 0\<rparr> =
     KDTree [(8, 8), (1, 1)] \<and>
   positions \<lparr>radius = 0, positions = [(1, 2), (1, 5)]\<rparr> = (1, 2) # [(1, 5)] \<and>
   distance (1, 1) (1, 2) \<le> SAFE_DISTANCE \<lparr>SAFE_DISTANCE = 1, DECELERATION_RATE = 2\<rparr> \<and>
   get_end_of_arc \<lparr>SAFE_DISTANCE = 1, DECELERATION_RATE = 2\<rparr>
     \<lparr>col_avoid_pointmap = KDTree [(8, 8), (1, 1)], run_time = 0\<rparr>
     \<lparr>radius = 0, positions = [(1, 2), (1, 5)]\<rparr> = Inr None"
proof -
  have d: "distance (1, 1) (1, 2) \<le> (1 :: real)"
    by (simp add: distance_le_iff)
  then have "\<exists>q\<in>set [(8, 8), (1, 1)].
      distance q (1, 2) \<le> SAFE_DISTANCE \<lparr>SAFE_DISTANCE = 1, DECELERATION_RATE = 2\<rparr>"
    by simp
  from get_end_of_arc_first_unsafe [of "\<lparr>col_avoid_pointmap = KDTree [(8, 8), (1, 1)], run_time = 0\<rparr>"
      "[(8, 8), (1, 1)]" "\<lparr>radius = 0, positions = [(1, 2), (1, 5)]\<rparr>" "(1, 2)" "[(1, 5)]",
      OF _ _ this] d
  show ?thesis by simp
qed

section \<open>The arc selector and the controller\<close>

text \<open>
  C6: when the scan of \<open>tic\<close> chooses an arc, that arc is in the catalog, its safe forward
  distance is the chosen distance, and no arc of the catalog has a larger safe forward distance.
\<close>

theorem chosen_arc_is_maximal:
  assumes "scan_arcs c data (None, 0) turn_arcs = Inr (Some a, d)"
  shows "a \<in> set turn_arcs \<and> (\<exists>q. get_end_of_arc c data a = Inr (Some q) \<and> snd q = d) \<and>
    (\<forall>b\<in>set turn_arcs. \<forall>p. get_end_of_arc c data b = Inr (Some p) \<longrightarrow> snd p \<le> d)"
proof -
  from scan_arcs_choice [OF assms] obtain i where
    i: "a = turn_arcs ! i" "first_at c data turn_arcs i d"
    by auto
  then have "a \<in> set turn_arcs" "\<exists>q. get_end_of_arc c data a = Inr (Some q) \<and> snd q = d"
    by (simp_all add: first_at_def)
  with scan_arcs_upper [OF assms] show ?thesis by simp
qed

theorem chosen_arc_is_maximal_witness:
  "scan_arcs \<lparr>SAFE_DISTANCE = 1, DECELERATION_RATE = 2\<rparr>
     \<lparr>col_avoid_pointmap = KDTree [], run_time = 0\<rparr> (None, 0)
     [\<lparr>radius = - 5, positions = [(- 1, 4)]\<rparr>,
      \<lparr>radius = 0, positions = [(0, 9)]\<rparr>,
      \<lparr>radius = 5, positions = [(1, 6)]\<rparr>] = Inr (Some \<lparr>radius = 0, positions = [(0, 9)]\<rparr>, 9) \<and>
   (\<exists>q. get_end_of_arc \<lparr>SAFE_DISTANCE = 1, DECELERATION_RATE = 2\<rparr>
       \<lparr>col_avoid_pointmap = KDTree [], run_time = 0\<rparr>
       \<lparr>radius = 0, positions = [(0, 9)]\<rparr> = Inr (Some q) \<and> snd q = 9) \<and>
   get_end_of_arc \<lparr>SAFE_DISTANCE = 1, DECELERATION_RATE = 2\<rparr>
       \<lparr>col_avoid_pointmap = KDTree [], run_time = 0\<rparr>
       \<lparr>radius = 5, positions = [(1, 6)]\<rparr> = Inr (Some (1, 6)) \<and>
   snd (1 :: real, 6 :: real) \<le> 9"
proof -
  have h: "scan_arcs \<lparr>SAFE_DISTANCE = 1, DECELERATION_RATE = 2\<rparr>
     \<lparr>col_avoid_pointmap = KDTree [], run_time = 0\<rparr> (None, 0)
     [\<lparr>radius = - 5, positions = [(- 1, 4)]\<rparr>,
      \<lparr>radius = 0, positions = [(0, 9)]\<rparr>,
      \<lparr>radius = 5, positions = [(1, 6)]\<rparr>] = Inr (Some \<lparr>radius = 0, positions = [(0, 9)]\<rparr>, 9)"
    by (simp add: get_end_of_arc_def query_ball_point_def)
  have g: "get_end_of_arc \<lparr>SAFE_DISTANCE = 1, DECELERATION_RATE = 2\<rparr>
       \<lparr>col_avoid_pointmap = KDTree [], run_time = 0\<rparr>
       \<lparr>radius = 5, positions = [(1, 6)]\<rparr> = Inr (Some (1, 6))"
    by (simp add: get_end_of_arc_def query_ball_point_def)
  from chosen_arc_is_maximal [OF h] h g show ?thesis by simp
qed

text \<open>
  C7: when the evaluator finds no safe point on any arc of the catalog, \<open>tic\<close> returns and
  leaves the safe-stop state: target speed 0 and target turn radius 0.
\<close>

theorem tic_no_safe_point_safe_stop:
  assumes "\<forall>a\<in>set turn_arcs. get_end_of_arc c data a = Inr None"
  shows "\<exists>s'. tic c data turn_arcs s = Inr s' \<and> target_speed s' = Fin 0 \<and> target_turn_radius s' = 0"
proof -
  from assms have "scan_arcs c data (None, 0) turn_arcs = Inr (None, 0)"
    by (intro scan_arcs_no_better) simp
  then show ?thesis
    by (simp add: tic_def target_speed_def target_turn_radius_def)
qed

theorem tic_no_safe_point_safe_stop_witness:
  "get_end_of_arc \<lparr>SAFE_DISTANCE = 1, DECELERATION_RATE = 2\<rparr>
     \<lparr>col_avoid_pointmap = KDTree [(0, 1)], run_time = 0\<rparr>
     \<lparr>radius = 5, positions = [(0, 1), (0, 9)]\<rparr> = Inr None \<and>
   (\<exists>s'. tic \<lparr>SAFE_DISTANCE = 1, DECELERATION_RATE = 2\<rparr>
       \<lparr>col_avoid_pointmap = KDTree [(0, 1)], run_time = 0\<rparr>
       [\<lparr>radius = 5, positions = [(0, 1), (0, 9)]\<rparr>]
       \<lparr>last_radius_index = 0, current_turn_radius = 0, current_speed = Fin 3\<rparr> = Inr s' \<and>
     target_speed s' = Fin 0 \<and> target_turn_radius s' = 0)"
proof -
  have h: "get_end_of_arc \<lparr>SAFE_DISTANCE = 1, DECELERATION_RATE = 2\<rparr>
     \<lparr>col_avoid_pointmap = KDTree [(0, 1)], run_time = 0\<rparr>
     \<lparr>radius = 5, positions = [(0, 1), (0, 9)]\<rparr> = Inr None"
    by (simp add: get_end_of_arc_def query_ball_point_def distance_le_iff)
  then have "\<forall>a\<in>set [\<lparr>radius = 5, positions = [(0, 1), (0, 9)]\<rparr>].
     get_end_of_arc \<lparr>SAFE_DISTANCE = 1, DECELERATION_RATE = 2\<rparr>
       \<lparr>col_avoid_pointmap = KDTree [(0, 1)], run_time = 0\<rparr> a = Inr None"
    by simp
  from tic_no_safe_point_safe_stop [OF this] h show ?thesis by blast
qed

text \<open>
  C10: when some arc has a safe point but no safe point lies strictly ahead of the vehicle
  (forward coordinate at most 0), \<open>tic\<close> leaves the safe-stop state as well.
\<close>

theorem tic_nothing_ahead_safe_stop:
  assumes "\<exists>a\<in>set turn_arcs. \<exists>p. get_end_of_arc c data a = Inr (Some p)"
    and "\<forall>a\<in>set turn_arcs. \<forall>p. get_end_of_arc c data a = Inr (Some p) \<longrightarrow> snd p \<le> 0"
  shows "\<exists>s'. tic c data turn_arcs s = Inr s' \<and> target_speed s' = Fin 0 \<and> target_turn_radius s' = 0"
proof -
  from assms(1) obtain cloud where "col_avoid_pointmap data = KDTree cloud"
    using get_end_of_arc_Inr_KDTree by blast
  then have "\<forall>a\<in>set turn_arcs. \<exists>e. get_end_of_arc c data a = Inr e"
    using get_end_of_arc_KDTree_Inr by blast
  with assms(2) have "\<forall>a\<in>set turn_arcs. \<exists>e. get_end_of_arc c data a = Inr e \<and> (\<forall>p. e = Some p \<longrightarrow> snd p \<le> 0)"
    by blast
  then have "scan_arcs c data (None, 0) turn_arcs = Inr (None, 0)"
    by (rule scan_arcs_no_better)
  then show ?thesis
    by (simp add: tic_def target_speed_def target_turn_radius_def)
qed

theorem tic_nothing_ahead_safe_stop_witness:
  "get_end_of_arc \<lparr>SAFE_DISTANCE = 1, DECELERATION_RATE = 2\<rparr>
     \<lparr>col_avoid_pointmap = KDTree [], run_time = 0\<rparr>
     \<lparr>radius = 5, positions = [(3, - 1)]\<rparr> = Inr (Some (3, - 1)) \<and>
   snd (3 :: real, - 1 :: real) \<le> 0 \<and>
   (\<exists>s'. tic \<lparr>SAFE_DISTANCE = 1, DECELERATION_RATE = 2\<rparr>
       \<lparr>col_avoid_pointmap = KDTree [], run_time = 0\<rparr>
       [\<lparr>radius = 5, positions = [(3, - 1)]\<rparr>]
       \<lparr>last_radius_index = 0, current_turn_radius = 0, current_speed = Fin 3\<rparr> = Inr s' \<and>
     target_speed s' = Fin 0 \<and> target_turn_radius s' = 0)"
proof -
  have h: "get_end_of_arc \<lparr>SAFE_DISTANCE = 1, DECELERATION_RATE = 2\<rparr>
     \<lparr>col_avoid_pointmap = KDTree [], run_time = 0\<rparr>
     \<lparr>radius = 5, positions = [(3, - 1)]\<rparr> = Inr (Some (3, - 1))"
    by (simp add: get_end_of_arc_def query_ball_point_def)
  then have 1: "\<exists>a\<in>set [\<lparr>radius = 5, positions = [(3, - 1)]\<rparr>]. \<exists>p.
     get_end_of_arc \<lparr>SAFE_DISTANCE = 1, DECELERATION_RATE = 2\<rparr>
       \<lparr>col_avoid_pointmap = KDTree [], run_time = 0\<rparr> a = Inr (Some p)"
    by simp
  from h have 2: "\<forall>a\<in>set [\<lparr>radius = 5, positions = [(3, - 1)]\<rparr>]. \<forall>p.
     get_end_of_arc \<lparr>SAFE_DISTANCE = 1, DECELERATION_RATE = 2\<rparr>
       \<lparr>col_avoid_pointmap = KDTree [], run_time = 0\<rparr> a = Inr (Some p) \<longrightarrow> snd p \<le> 0"
    by simp
  from tic_nothing_ahead_safe_stop [OF 1 2] h show ?thesis by simp
qed




text \<open>
  C1 asks that a \<open>tic\<close> which finds a viable arc leaves that arc's turn radius as target turn
  radius. On that path \<open>tic\<close> assigns the speed only: for a fresh controller and a catalog
  whose one arc has radius 5 and a clear position 2 ahead, the target speed becomes 2 and the
  target turn radius stays 0.
\<close>

theorem tic_leaves_turn_radius:
  "tic \<lparr>SAFE_DISTANCE = 1, DECELERATION_RATE = 2\<rparr>
     \<lparr>col_avoid_pointmap = KDTree [], run_time = 0\<rparr>
     [\<lparr>radius = 5, positions = [(1, 2)]\<rparr>]
     (init [\<lparr>radius = 5, positions = [(1, 2)]\<rparr>]) =
   Inr \<lparr>last_radius_index = 0, current_turn_radius = 0, current_speed = Fin 2\<rparr> \<and>
   scan_arcs \<lparr>SAFE_DISTANCE = 1, DECELERATION_RATE = 2\<rparr>
     \<lparr>col_avoid_pointmap = KDTree [], run_time = 0\<rparr> (None, 0)
     [\<lparr>radius = 5, positions = [(1, 2)]\<rparr>] = Inr (Some \<lparr>radius = 5, positions = [(1, 2)]\<rparr>, 2) \<and>
   target_turn_radius \<lparr>last_radius_index = 0, current_turn_radius = 0, current_speed = Fin 2\<rparr>
     \<noteq> radius \<lparr>radius = 5, positions = [(1, 2 :: real)]\<rparr>"
  by (simp add: tic_def init_def get_end_of_arc_def query_ball_point_def
      find_speed_from_distance_def np_sqrt_def target_turn_radius_def)

text \<open>
  C2 asks for target speed 0 when the chosen arc's forward distance is inside the safety margin.
  \<open>tic\<close> passes the negative free distance on unclamped: with forward distance 1/2 and
  margin 1 the target speed is \<open>NaN\<close>.
\<close>

theorem tic_speed_nan_inside_margin:
  "tic \<lparr>SAFE_DISTANCE = 1, DECELERATION_RATE = 2\<rparr>
     \<lparr>col_avoid_pointmap = KDTree [], run_time = 0\<rparr>
     [\<lparr>radius = 0, positions = [(0, 1 / 2)]\<rparr>]
     (init [\<lparr>radius = 0, positions = [(0, 1 / 2)]\<rparr>]) =
   Inr \<lparr>last_radius_index = 0, current_turn_radius = 0, current_speed = NaN\<rparr> \<and>
   target_speed \<lparr>last_radius_index = 0, current_turn_radius = 0, current_speed = NaN\<rparr> \<noteq> Fin 0"
  by (simp add: tic_def init_def get_end_of_arc_def query_ball_point_def
      find_speed_from_distance_def np_sqrt_def target_speed_def)

section \<open>The speed planner\<close>

text \<open>
  C5 asks that the speed be monotone in the free distance and that its square be
  \<open>2 * DECELERATION_RATE * max d 0\<close>. For a negative free distance the planner returns
  \<open>NaN\<close>, here at \<open>d = -1/2\<close> with rate 2; from 0 on both parts hold
  (\<open>find_speed_from_distance_nonneg\<close>, \<open>find_speed_from_distance_mono\<close>).
\<close>

theorem find_speed_nan_below_zero:
  "find_speed_from_distance \<lparr>SAFE_DISTANCE = 1, DECELERATION_RATE = 2\<rparr> (- 1 / 2) = Inr NaN"
  by (simp add: find_speed_from_distance_def np_sqrt_def)

section \<open>The traversal-order helper\<close>

text \<open>
  What holds of every call: the indices yielded lie between \<open>start_index + lower_bound\<close>
  (inclusive) and \<open>start_index + upper_bound\<close> (exclusive), none is yielded twice, and the
  distance to the start never decreases along the sequence.
\<close>

lemma expanding_indices_within_bounds:
  "set (expanding_indices s lo hi) \<subseteq> {s + lo ..< s + hi} \<and>
   distinct (expanding_indices s lo hi) \<and>
   sorted (map (\<lambda>k. \<bar>k - s\<bar>) (expanding_indices s lo hi)) \<and>
   (lo \<le> 0 \<and> 0 < hi \<longrightarrow> hd (expanding_indices s lo hi) = s)"
proof -
  have "set (expanding_indices s lo hi) \<subseteq> {s + lo ..< s + hi}"
  proof
    fix k assume "k \<in> set (expanding_indices s lo hi)"
    then have "k \<in> set (expanding_from s lo hi 0)" by (simp add: expanding_indices_def)
    from expanding_from_members [OF this] show "k \<in> {s + lo ..< s + hi}" by simp
  qed
  moreover have "distinct (expanding_indices s lo hi)"
    by (simp add: expanding_indices_def expanding_from_distinct)
  moreover have "sorted (map (\<lambda>k. \<bar>k - s\<bar>) (expanding_indices s lo hi))"
    by (simp add: expanding_indices_def expanding_from_sorted)
  ultimately show ?thesis by (simp add: expanding_indices_hd)
qed

text \<open>
  C4 asks that the call with start 5 and bounds -3 and 3 yield every index from 2 to 8 once,
  alternating outward one step at a time (5, 6, 4, 7, 3, 8, 2). The counter of the generator
  runs 0, -1, 2, -3, 4: each magnitude is visited on one side only, so the call yields
  5, 4, 7, 2 and never 3 or 6 (nor 8, which the exclusive upper bound leaves out).
\<close>

theorem expanding_indices_skips_indices:
  "expanding_indices 5 (- 3) 3 = [5, 4, 7, 2] \<and>
   3 \<notin> set (expanding_indices 5 (- 3) 3) \<and>
   6 \<notin> set (expanding_indices 5 (- 3) 3) \<and>
   8 \<notin> set (expanding_indices 5 (- 3) 3) \<and>
   set (expanding_indices 5 (- 3) 3) \<noteq> {2, 3, 4, 5, 6, 7, 8} \<and>
   expanding_indices 5 (- 3) 3 \<noteq> [5, 6, 4, 7, 3, 8, 2]"
proof -
  have e: "expanding_indices 5 (- 3) 3 = [5, 4, 7, 2]"
    by (simp add: expanding_indices_def expanding_from.simps)
  have "set [5, 4, 7, 2 :: int] \<noteq> {2, 3, 4, 5, 6, 7, 8}"
  proof
    assume "set [5, 4, 7, 2 :: int] = {2, 3, 4, 5, 6, 7, 8}"
    then have "(3 :: int) \<in> set [5, 4, 7, 2]" by simp
    then show False by simp
  qed
  with e show ?thesis by simp
qed

end
